theory Spec2Isabelle
  imports Complex_Main "HOL-Library.Multiset"
begin

section \<open>FilaSimples.py: a G/G/c/K queue simulator driven by a bounded LCG stream\<close>

text \<open>
  The embedding follows \<^verbatim>\<open>src/FilaSimples.py\<close>. Python integers are \<open>int\<close>.
  Python floats (event times, dwell times, variates) are idealised as exact rationals
  \<open>rat\<close>: rounding, overflow to infinity and not-a-number are not modelled. The theorems
  below are therefore about the generator, the counters, the control flow and which
  expression the code evaluates; none of them states a property of accumulated float
  values. The variate \<^verbatim>\<open>previous / M\<close> is exact in the source as well (an integer below
  \<open>2^32\<close> divided by \<open>2^32\<close>), and so is every time in the concrete runs used below
  (small integers).
\<close>

subsection \<open>The pseudo-random generator (lines 7-28)\<close>

text \<open>The module constants \<^verbatim>\<open>a\<close>, \<^verbatim>\<open>c\<close> and \<^verbatim>\<open>M\<close>.\<close>

definition lcg_a :: int where "lcg_a = 1664525"
definition lcg_c :: int where "lcg_c = 1013904223"
definition lcg_M :: int where "lcg_M = 2 ^ 32"

text \<open>The two module globals \<^verbatim>\<open>previous\<close> and \<^verbatim>\<open>random_count\<close>.\<close>

record generator =
  previous :: int
  random_count :: int

datatype error = Exhausted | IndexError

definition reset_random :: "int \<Rightarrow> int \<Rightarrow> generator" where
  "reset_random sd cnt = \<lparr>previous = sd, random_count = cnt\<rparr>"

text \<open>
  \<^verbatim>\<open>next_random\<close> raises before it touches a global when the count is used up; otherwise
  it decrements the count, advances \<^verbatim>\<open>previous\<close> and returns \<^verbatim>\<open>previous / M\<close>. The model
  returns the outcome together with the globals as the call leaves them.
\<close>

definition next_random :: "generator \<Rightarrow> (error + rat) \<times> generator" where
  "next_random g =
     (if random_count g \<le> 0 then (Inl Exhausted, g)
      else
        let g1 = g\<lparr>random_count := random_count g - 1\<rparr>;
            g2 = g1\<lparr>previous := (lcg_a * previous g1 + lcg_c) mod lcg_M\<rparr>
        in (Inr (of_int (previous g2) / of_int lcg_M), g2))"

text \<open>The recurrence on its own, and \<open>n\<close> calls one after the other, each outcome recorded.\<close>

definition lcg :: "int \<Rightarrow> int" where
  "lcg x = (lcg_a * x + lcg_c) mod lcg_M"

fun draws :: "nat \<Rightarrow> generator \<Rightarrow> (error + rat) list \<times> generator" where
  "draws 0 g = ([], g)"
| "draws (Suc n) g =
     (case next_random g of (r, g') \<Rightarrow>
        (case draws n g' of (rs, g'') \<Rightarrow> (r # rs, g'')))"

subsection \<open>The event list (lines 55-64, 84, 96, 111)\<close>

text \<open>
  Events are the tuples \<^verbatim>\<open>(time, type)\<close> with type \<^verbatim>\<open>"arrival"\<close> or \<^verbatim>\<open>"departure"\<close>.
  Python compares tuples lexicographically, and the string \<^verbatim>\<open>"arrival"\<close> is smaller than
  \<^verbatim>\<open>"departure"\<close>.
\<close>

datatype event_type = Arrival | Departure

type_synonym event = "rat \<times> event_type"

fun type_less :: "event_type \<Rightarrow> event_type \<Rightarrow> bool" where
  "type_less Arrival Departure = True"
| "type_less _ _ = False"

fun tuple_less :: "event \<Rightarrow> event \<Rightarrow> bool" where
  "tuple_less (t1, k1) (t2, k2) = (t1 < t2 \<or> (t1 = t2 \<and> type_less k1 k2))"

text \<open>
  \<^verbatim>\<open>heapq\<close> is the standard library's binary heap: \<^verbatim>\<open>heappop\<close> returns the smallest
  item of the list under the items' own order and raises \<^verbatim>\<open>IndexError\<close> on an empty
  list. The array layout of the heap is not modelled: the list holds the pending events
  in the order of their insertion, and \<open>heappop\<close> takes the least tuple out of it. Two
  tuples that compare equal are the same value, so this fixes what the program observes.
\<close>

definition heappush :: "event list \<Rightarrow> event \<Rightarrow> event list" where
  "heappush el e = el @ [e]"

definition least_event :: "event \<Rightarrow> event list \<Rightarrow> event" where
  "least_event e es = fold (\<lambda>x m. if tuple_less x m then x else m) es e"

definition heappop :: "event list \<Rightarrow> (event \<times> event list) option" where
  "heappop el =
     (case el of
        [] \<Rightarrow> None
      | e # es \<Rightarrow> (let m = least_event e es in Some (m, remove1 m el)))"

subsection \<open>The simulation (lines 33-135)\<close>

record params =
  servers :: int
  capacity :: int
  first_arrival :: rat
  min_arrival :: rat
  max_arrival :: rat
  min_service :: rat
  max_service :: rat
  num_randoms :: int
  seed :: int

text \<open>The locals of \<^verbatim>\<open>simulate_queue\<close> together with the generator's globals.\<close>

record sim =
  rng :: generator
  current_time :: rat
  state :: int
  losses :: int
  time_in_state :: "rat list"
  event_list :: "event list"

text \<open>
  \<^verbatim>\<open>time_in_state[state] += delta\<close>: a Python list index may be negative (counting from
  the end) and raises \<^verbatim>\<open>IndexError\<close> outside \<open>-len .. len-1\<close>.
\<close>

definition add_at :: "rat list \<Rightarrow> int \<Rightarrow> rat \<Rightarrow> error + rat list" where
  "add_at xs i d =
     (let n = int (length xs); j = (if i < 0 then n + i else i)
      in if 0 \<le> j \<and> j < n then Inr (xs[nat j := xs ! nat j + d]) else Inl IndexError)"

datatype flow = Next | Break

text \<open>
  The two \<^verbatim>\<open>try: x = next_random() except Exception: break\<close> blocks with the push that
  follows each of them.
\<close>

definition schedule_departure :: "params \<Rightarrow> sim \<Rightarrow> sim \<times> flow" where
  "schedule_departure p s =
     (case next_random (rng s) of
        (Inl _, g) \<Rightarrow> (s\<lparr>rng := g\<rparr>, Break)
      | (Inr x, g) \<Rightarrow>
          (let service_time = min_service p + (max_service p - min_service p) * x;
               departure_time = current_time s + service_time
           in (s\<lparr>rng := g, event_list := heappush (event_list s) (departure_time, Departure)\<rparr>,
               Next)))"

definition schedule_arrival :: "params \<Rightarrow> sim \<Rightarrow> sim \<times> flow" where
  "schedule_arrival p s =
     (case next_random (rng s) of
        (Inl _, g) \<Rightarrow> (s\<lparr>rng := g\<rparr>, Break)
      | (Inr x, g) \<Rightarrow>
          (let interarrival = min_arrival p + (max_arrival p - min_arrival p) * x;
               next_arrival_time = current_time s + interarrival
           in (s\<lparr>rng := g, event_list := heappush (event_list s) (next_arrival_time, Arrival)\<rparr>,
               Next)))"

definition on_arrival :: "params \<Rightarrow> sim \<Rightarrow> sim \<times> flow" where
  "on_arrival p s =
     (if state s < capacity p then
        (let s1 = s\<lparr>state := state s + 1\<rparr>
         in if state s1 \<le> servers p then
              (case schedule_departure p s1 of
                 (s2, Break) \<Rightarrow> (s2, Break)
               | (s2, Next) \<Rightarrow> schedule_arrival p s2)
            else schedule_arrival p s1)
      else schedule_arrival p (s\<lparr>losses := losses s + 1\<rparr>))"

definition on_departure :: "params \<Rightarrow> sim \<Rightarrow> sim \<times> flow" where
  "on_departure p s =
     (let s1 = s\<lparr>state := state s - 1\<rparr>
      in if state s1 \<ge> servers p then schedule_departure p s1 else (s1, Next))"

text \<open>One pass through the body of the \<^verbatim>\<open>while\<close> loop (lines 64-111).\<close>

definition step :: "params \<Rightarrow> sim \<Rightarrow> error + (sim \<times> flow)" where
  "step p s =
     (case heappop (event_list s) of
        None \<Rightarrow> Inl IndexError
      | Some ((event_time, ty), el) \<Rightarrow>
          (case add_at (time_in_state s) (state s) (event_time - current_time s) of
             Inl e \<Rightarrow> Inl e
           | Inr tis \<Rightarrow>
               (let s1 = s\<lparr>event_list := el, time_in_state := tis, current_time := event_time\<rparr>
                in Inr (case ty of Arrival \<Rightarrow> on_arrival p s1 | Departure \<Rightarrow> on_departure p s1))))"

text \<open>The loop test \<^verbatim>\<open>while event_list and random_count > 0\<close>.\<close>

definition loop_cond :: "sim \<Rightarrow> bool" where
  "loop_cond s = (event_list s \<noteq> [] \<and> random_count (rng s) > 0)"

subsection \<open>Basic facts about a draw, a pop and one loop pass\<close>

text \<open>The variate a draw returns from the generator state \<open>x\<close>, and the state it leaves.\<close>

definition variate :: "int \<Rightarrow> rat" where
  "variate x = of_int (lcg x) / of_int lcg_M"

definition advance :: "generator \<Rightarrow> generator" where
  "advance g = \<lparr>previous = lcg (previous g), random_count = random_count g - 1\<rparr>"

lemma lcg_range: "0 \<le> lcg x \<and> lcg x < lcg_M"
  by (simp add: lcg_def lcg_M_def)

lemma variate_bounds: "0 \<le> variate x" "variate x < 1"
  using lcg_range[of x] by (simp_all add: variate_def lcg_M_def)

lemma next_random_eq:
  "next_random g = (if random_count g \<le> 0 then (Inl Exhausted, g)
                    else (Inr (variate (previous g)), advance g))"
  by (simp add: next_random_def Let_def lcg_def variate_def advance_def)

lemma least_event_in: "least_event e es \<in> set (e # es)"
  unfolding least_event_def
proof (induction es arbitrary: e)
  case Nil
  show ?case by simp
next
  case (Cons x xs)
  show ?case using Cons[of x] Cons[of e] by auto
qed

lemma heappop_Some:
  "heappop el = Some (e, el') \<Longrightarrow> e \<in> set el \<and> el' = remove1 e el"
  using least_event_in
  by (auto simp: heappop_def Let_def split: list.splits)

lemma heappop_None: "heappop el = None \<longleftrightarrow> el = []"
  by (auto simp: heappop_def Let_def split: list.splits)

lemma heappop_mset:
  "heappop el = Some (e, el') \<Longrightarrow> mset el = add_mset e (mset el')"
  by (drule heappop_Some) simp

lemma heappop_length:
  "heappop el = Some (e, el') \<Longrightarrow> length el = Suc (length el')"
proof -
  assume "heappop el = Some (e, el')"
  then have "size (mset el) = size (add_mset e (mset el'))"
    by (simp only: heappop_mset)
  then show ?thesis by simp
qed

lemma schedule_departure_eq:
  "schedule_departure p s =
     (if random_count (rng s) \<le> 0 then (s, Break)
      else (s\<lparr>rng := advance (rng s),
              event_list := event_list s @
                [(current_time s +
                   (min_service p + (max_service p - min_service p) * variate (previous (rng s))),
                  Departure)]\<rparr>, Next))"
  by (simp add: schedule_departure_def next_random_eq Let_def heappush_def)

lemma schedule_arrival_eq:
  "schedule_arrival p s =
     (if random_count (rng s) \<le> 0 then (s, Break)
      else (s\<lparr>rng := advance (rng s),
              event_list := event_list s @
                [(current_time s +
                   (min_arrival p + (max_arrival p - min_arrival p) * variate (previous (rng s))),
                  Arrival)]\<rparr>, Next))"
  by (simp add: schedule_arrival_def next_random_eq Let_def heappush_def)

lemma add_at_length: "add_at xs i d = Inr ys \<Longrightarrow> length ys = length xs"
  by (auto simp: add_at_def Let_def split: if_splits)

text \<open>A pass that does not raise has popped an event, accrued its interval and handled it.\<close>

lemma step_elim:
  assumes "step p s = Inr (s', f)"
  obtains t ty el tis where
    "heappop (event_list s) = Some ((t, ty), el)"
    "add_at (time_in_state s) (state s) (t - current_time s) = Inr tis"
    "(s', f) = (case ty of
        Arrival \<Rightarrow> on_arrival p (s\<lparr>event_list := el, time_in_state := tis, current_time := t\<rparr>)
      | Departure \<Rightarrow> on_departure p (s\<lparr>event_list := el, time_in_state := tis, current_time := t\<rparr>))"
  using assms
  by (auto simp: step_def Let_def split: option.splits prod.splits sum.splits)

text \<open>
  Every successful draw is followed by exactly one push, so a handler keeps the sum of
  the pending events and the remaining draws, and the pop before it lowers that sum by one.
\<close>

lemma on_arrival_budget:
  "on_arrival p s = (s', f) \<Longrightarrow> 0 \<le> random_count (rng s) \<Longrightarrow>
     int (length (event_list s')) + random_count (rng s') =
     int (length (event_list s)) + random_count (rng s) \<and> 0 \<le> random_count (rng s')"
  by (auto simp: on_arrival_def Let_def schedule_departure_eq schedule_arrival_eq advance_def
           split: if_splits prod.splits flow.splits)

lemma on_departure_budget:
  "on_departure p s = (s', f) \<Longrightarrow> 0 \<le> random_count (rng s) \<Longrightarrow>
     int (length (event_list s')) + random_count (rng s') =
     int (length (event_list s)) + random_count (rng s) \<and> 0 \<le> random_count (rng s')"
  by (auto simp: on_departure_def Let_def schedule_departure_eq advance_def
           split: if_splits)

lemma step_budget:
  assumes "step p s = Inr (s', f)" and "0 \<le> random_count (rng s)"
  shows "int (length (event_list s')) + random_count (rng s') + 1 =
         int (length (event_list s)) + random_count (rng s) \<and> 0 \<le> random_count (rng s')"
proof -
  from assms(1) obtain t ty el tis where
    pop: "heappop (event_list s) = Some ((t, ty), el)" and
    r: "(s', f) = (case ty of
        Arrival \<Rightarrow> on_arrival p (s\<lparr>event_list := el, time_in_state := tis, current_time := t\<rparr>)
      | Departure \<Rightarrow> on_departure p (s\<lparr>event_list := el, time_in_state := tis, current_time := t\<rparr>))"
    by (rule step_elim)
  let ?s1 = "s\<lparr>event_list := el, time_in_state := tis, current_time := t\<rparr>"
  have len: "length (event_list s) = Suc (length el)" using pop by (rule heappop_length)
  have "int (length (event_list s')) + random_count (rng s') =
     int (length (event_list ?s1)) + random_count (rng ?s1) \<and> 0 \<le> random_count (rng s')"
  proof (cases ty)
    case Arrival
    with r have "on_arrival p ?s1 = (s', f)" by simp
    from on_arrival_budget[OF this] assms(2) show ?thesis by simp
  next
    case Departure
    with r have "on_departure p ?s1 = (s', f)" by simp
    from on_departure_budget[OF this] assms(2) show ?thesis by simp
  qed
  with len show ?thesis by simp
qed

subsection \<open>The loop and the call (lines 46-135)\<close>

text \<open>
  The \<^verbatim>\<open>while\<close> loop. It ends when its test fails, at a \<^verbatim>\<open>break\<close>, or with the
  exception a pass raises. Pending events plus remaining draws go down with every pass.
\<close>

function loop :: "params \<Rightarrow> sim \<Rightarrow> error + sim" where
  "loop p s =
     (if loop_cond s then
        (case step p s of
           Inl e \<Rightarrow> Inl e
         | Inr (s', Break) \<Rightarrow> Inr s'
         | Inr (s', Next) \<Rightarrow> loop p s')
      else Inr s)"
  by pat_completeness auto
termination
proof (relation "measure (\<lambda>(p, s). nat (random_count (rng s)) + length (event_list s))")
  show "wf (measure (\<lambda>(p, s). nat (random_count (rng s)) + length (event_list s)))" by simp
next
  fix p s x2 s' f
  assume c: "loop_cond s" and st: "step p s = Inr x2" and x: "(s', f) = x2" and "f = Next"
  from c have "0 \<le> random_count (rng s)" by (simp add: loop_cond_def)
  with step_budget[of p s s' f] st x
  show "((p, s'), (p, s)) \<in> measure (\<lambda>(p, s). nat (random_count (rng s)) + length (event_list s))"
    by auto
qed

text \<open>
  The processed events of a run from \<open>s\<close>, in order: for each pass that did not raise,
  the state at the loop test, the event popped, and the state the pass left. This
  follows the loop and adds nothing to it.
\<close>

function history :: "params \<Rightarrow> sim \<Rightarrow> (sim \<times> event \<times> sim) list" where
  "history p s =
     (if loop_cond s then
        (case heappop (event_list s) of
           None \<Rightarrow> []
         | Some (e, el) \<Rightarrow>
             (case step p s of
                Inl err \<Rightarrow> []
              | Inr (s', Break) \<Rightarrow> [(s, e, s')]
              | Inr (s', Next) \<Rightarrow> (s, e, s') # history p s'))
      else [])"
  by pat_completeness auto
termination
proof (relation "measure (\<lambda>(p, s). nat (random_count (rng s)) + length (event_list s))")
  show "wf (measure (\<lambda>(p, s). nat (random_count (rng s)) + length (event_list s)))" by simp
next
  fix p s x2 e el x2a s' f
  assume c: "loop_cond s" and st: "step p s = Inr x2a" and x: "(s', f) = x2a" and "f = Next"
  from c have "0 \<le> random_count (rng s)" by (simp add: loop_cond_def)
  with step_budget[of p s s' f] st x
  show "((p, s'), (p, s)) \<in> measure (\<lambda>(p, s). nat (random_count (rng s)) + length (event_list s))"
    by auto
qed

text \<open>Lines 46-60: the generator reset, the locals, and the first arrival.\<close>

definition init_sim :: "params \<Rightarrow> sim" where
  "init_sim p =
     \<lparr>rng = reset_random (seed p) (num_randoms p),
      current_time = 0,
      state = 0,
      losses = 0,
      time_in_state = replicate (nat (capacity p + 1)) 0,
      event_list = heappush [] (first_arrival p, Arrival)\<rparr>"

text \<open>Lines 115-121: the probabilities in percent and the mean population.\<close>

definition probabilities_of :: "rat list \<Rightarrow> rat \<Rightarrow> rat list" where
  "probabilities_of tis clock = map (\<lambda>t. if clock > 0 then t / clock * 100 else 0) tis"

definition avg_population_of :: "rat list \<Rightarrow> rat \<Rightarrow> rat" where
  "avg_population_of tis clock =
     (if clock > 0 then (\<Sum>i\<leftarrow>[0..<length tis]. of_nat i * (tis ! i / clock)) else 0)"

text \<open>
  The dictionary \<^verbatim>\<open>simulate_queue\<close> returns. The keys that would clash with the fields
  above carry the prefix \<open>res_\<close>.
\<close>

record result =
  simulation_time :: rat
  res_time_in_state :: "rat list"
  probabilities :: "rat list"
  res_losses :: int
  avg_population :: rat
  res_servers :: int
  res_capacity :: int
  res_min_arrival :: rat
  res_max_arrival :: rat
  res_min_service :: rat
  res_max_service :: rat

definition result_of :: "params \<Rightarrow> sim \<Rightarrow> result" where
  "result_of p s =
     \<lparr>simulation_time = current_time s,
      res_time_in_state = time_in_state s,
      probabilities = probabilities_of (time_in_state s) (current_time s),
      res_losses = losses s,
      avg_population = avg_population_of (time_in_state s) (current_time s),
      res_servers = servers p,
      res_capacity = capacity p,
      res_min_arrival = min_arrival p,
      res_max_arrival = max_arrival p,
      res_min_service = min_service p,
      res_max_service = max_service p\<rparr>"

definition simulate_queue :: "params \<Rightarrow> error + result" where
  "simulate_queue p =
     (case loop p (init_sim p) of
        Inl e \<Rightarrow> Inl e
      | Inr s \<Rightarrow> Inr (result_of p s))"

subsection \<open>The order of the events and the least one\<close>

lemma tuple_less_total_trans:
  "\<not> tuple_less a b \<Longrightarrow> \<not> tuple_less b c \<Longrightarrow> \<not> tuple_less a c"
  by (cases a; cases b; cases c; cases "snd a"; cases "snd b"; cases "snd c") auto

lemma tuple_less_asym: "tuple_less a b \<Longrightarrow> \<not> tuple_less b a"
  by (cases a; cases b; cases "snd a"; cases "snd b") auto

lemma tuple_less_irrefl: "\<not> tuple_less a a"
  by (cases a; cases "snd a") auto

lemma least_event_least: "\<forall>x \<in> set (e # es). \<not> tuple_less x (least_event e es)"
  unfolding least_event_def
proof (induction es arbitrary: e)
  case Nil
  show ?case by (simp add: tuple_less_irrefl)
next
  case (Cons x xs)
  let ?f = "\<lambda>x m. if tuple_less x m then x else m"
  let ?e' = "if tuple_less x e then x else e"
  have ih: "\<forall>y \<in> set (?e' # xs). \<not> tuple_less y (fold ?f xs ?e')" by (rule Cons.IH)
  then have m: "\<not> tuple_less ?e' (fold ?f xs ?e')" by simp
  have "\<not> tuple_less e ?e'" "\<not> tuple_less x ?e'"
    by (auto simp: tuple_less_irrefl dest: tuple_less_asym)
  then have "\<not> tuple_less e (fold ?f xs ?e')" "\<not> tuple_less x (fold ?f xs ?e')"
    using m tuple_less_total_trans by blast+
  with ih show ?case by simp
qed

lemma heappop_least:
  "heappop el = Some (e, el') \<Longrightarrow> x \<in> set el \<Longrightarrow> \<not> tuple_less x e"
  using least_event_least
  by (auto simp: heappop_def Let_def split: list.splits)

definition departures :: "event list \<Rightarrow> int" where
  "departures el = int (length (filter (\<lambda>e. snd e = Departure) el))"

lemma departures_simps [simp]:
  "departures [] = 0"
  "departures ((t, k) # el) = (if k = Departure then 1 else 0) + departures el"
  "departures (el @ el') = departures el + departures el'"
  by (simp_all add: departures_def)

lemma departures_nonneg: "0 \<le> departures el"
  by (simp add: departures_def)

lemma heappop_departures:
  assumes "heappop el = Some ((t, ty), el')"
  shows "departures el = departures el' + (if ty = Departure then 1 else 0)"
proof -
  let ?P = "\<lambda>e::event. snd e = Departure"
  have len: "\<And>xs. int (length (filter ?P xs)) = int (size (filter_mset ?P (mset xs)))"
    by (simp flip: mset_filter)
  have "filter_mset ?P (mset el) = filter_mset ?P (add_mset (t, ty) (mset el'))"
    by (simp only: heappop_mset[OF assms])
  then have "size (filter_mset ?P (mset el)) = size (filter_mset ?P (add_mset (t, ty) (mset el')))"
    by simp
  then show ?thesis
    unfolding departures_def len by simp
qed

subsection \<open>Occupancy and pending departures\<close>

text \<open>
  The number of pending departures never exceeds the customers in service, which is what
  keeps the occupancy from going negative.
\<close>

definition occ_inv :: "params \<Rightarrow> sim \<Rightarrow> bool" where
  "occ_inv p s =
     (length (time_in_state s) = nat (capacity p + 1) \<and>
      0 \<le> state s \<and> state s \<le> max 0 (capacity p) \<and>
      departures (event_list s) \<le> max 0 (min (state s) (servers p)))"

lemma on_arrival_effect:
  "on_arrival p s = (s', f) \<Longrightarrow>
     time_in_state s' = time_in_state s \<and> current_time s' = current_time s \<and>
     (if state s < capacity p
      then state s' = state s + 1 \<and> losses s' = losses s \<and>
           departures (event_list s') \<le>
             departures (event_list s) + (if state s + 1 \<le> servers p then 1 else 0)
      else state s' = state s \<and> losses s' = losses s + 1 \<and>
           departures (event_list s') = departures (event_list s))"
  by (auto simp: on_arrival_def Let_def schedule_departure_eq schedule_arrival_eq
           split: if_splits prod.splits flow.splits)

lemma on_departure_effect:
  "on_departure p s = (s', f) \<Longrightarrow>
     time_in_state s' = time_in_state s \<and> current_time s' = current_time s \<and>
     state s' = state s - 1 \<and> losses s' = losses s \<and>
     departures (event_list s') \<le>
       departures (event_list s) + (if servers p \<le> state s - 1 then 1 else 0)"
  by (auto simp: on_departure_def Let_def schedule_departure_eq split: if_splits)

lemma add_at_Inr:
  "add_at xs i d = Inr ys \<Longrightarrow> - int (length xs) \<le> i \<and> i < int (length xs) \<and> length ys = length xs"
  by (auto simp: add_at_def Let_def split: if_splits)

lemma step_occ_inv:
  assumes st: "step p s = Inr (s', f)" and inv: "occ_inv p s"
  shows "occ_inv p s' \<and> 0 \<le> capacity p \<and> state s \<le> capacity p"
proof -
  from st obtain t ty el tis where
    pop: "heappop (event_list s) = Some ((t, ty), el)" and
    acc: "add_at (time_in_state s) (state s) (t - current_time s) = Inr tis" and
    r: "(s', f) = (case ty of
        Arrival \<Rightarrow> on_arrival p (s\<lparr>event_list := el, time_in_state := tis, current_time := t\<rparr>)
      | Departure \<Rightarrow> on_departure p (s\<lparr>event_list := el, time_in_state := tis, current_time := t\<rparr>))"
    by (rule step_elim)
  let ?s1 = "s\<lparr>event_list := el, time_in_state := tis, current_time := t\<rparr>"
  from add_at_Inr[OF acc] inv
  have cap: "0 \<le> capacity p" "state s \<le> capacity p" and len: "length tis = nat (capacity p + 1)"
    by (auto simp: occ_inv_def split: if_splits)
  have dep: "departures (event_list s) = departures el + (if ty = Departure then 1 else 0)"
    using pop by (rule heappop_departures)
  have "occ_inv p s'"
  proof (cases ty)
    case Arrival
    with r have "on_arrival p ?s1 = (s', f)" by simp
    from on_arrival_effect[OF this] inv dep Arrival cap len
    show ?thesis by (auto simp: occ_inv_def split: if_splits)
  next
    case Departure
    with r have "on_departure p ?s1 = (s', f)" by simp
    from on_departure_effect[OF this] inv dep Departure cap len departures_nonneg[of el]
    show ?thesis by (auto simp: occ_inv_def split: if_splits)
  qed
  with cap show ?thesis by simp
qed

lemma init_occ_inv: "occ_inv p (init_sim p)"
  by (simp add: occ_inv_def init_sim_def heappush_def)

subsection \<open>Unfolding the loop\<close>

declare loop.simps [simp del] history.simps [simp del]

lemma loop_stop: "\<not> loop_cond s \<Longrightarrow> loop p s = Inr s"
  by (simp add: loop.simps[of p s])

lemma loop_err: "loop_cond s \<Longrightarrow> step p s = Inl e \<Longrightarrow> loop p s = Inl e"
  by (simp add: loop.simps[of p s])

lemma loop_break: "loop_cond s \<Longrightarrow> step p s = Inr (s', Break) \<Longrightarrow> loop p s = Inr s'"
  by (simp add: loop.simps[of p s])

lemma loop_next: "loop_cond s \<Longrightarrow> step p s = Inr (s', Next) \<Longrightarrow> loop p s = loop p s'"
  by (simp add: loop.simps[of p s])

lemma history_stop: "\<not> loop_cond s \<Longrightarrow> history p s = []"
  by (simp add: history.simps[of p s])

lemma history_err: "step p s = Inl e \<Longrightarrow> history p s = []"
  by (simp add: history.simps[of p s] split: option.splits)

lemma history_break:
  "loop_cond s \<Longrightarrow> heappop (event_list s) = Some (e, el) \<Longrightarrow> step p s = Inr (s', Break) \<Longrightarrow>
   history p s = [(s, e, s')]"
  by (simp add: history.simps[of p s])

lemma history_next:
  "loop_cond s \<Longrightarrow> heappop (event_list s) = Some (e, el) \<Longrightarrow> step p s = Inr (s', Next) \<Longrightarrow>
   history p s = (s, e, s') # history p s'"
  by (simp add: history.simps[of p s])

lemma step_pops:
  "step p s = Inr (s', f) \<Longrightarrow> \<exists>e el. heappop (event_list s) = Some (e, el)"
  by (erule step_elim) blast

text \<open>An invariant of the loop body holds at every processed event and for the result.\<close>

lemma history_invariant:
  shows "\<forall>s s' f. I s \<longrightarrow> loop_cond s \<longrightarrow> step p s = Inr (s', f) \<longrightarrow> I s' \<Longrightarrow>
         I s \<Longrightarrow> (a, e, b) \<in> set (history p s) \<Longrightarrow>
         I a \<and> loop_cond a \<and> I b \<and> (\<exists>el. heappop (event_list a) = Some (e, el)) \<and>
         (\<exists>f. step p a = Inr (b, f))"
proof (induction p s rule: history.induct)
  case (1 p s)
  note pres = "1.prems"(1) and Is = "1.prems"(2) and goal = "1.prems"(3)
  show ?case
  proof (cases "loop_cond s")
    case False
    with "1.prems" show ?thesis by (simp add: history_stop)
  next
    case True
    show ?thesis
    proof (cases "step p s")
      case (Inl err)
      with "1.prems" show ?thesis by (simp add: history_err)
    next
      case (Inr r)
      obtain s' f where r: "r = (s', f)" by (cases r)
      with Inr have st: "step p s = Inr (s', f)" by simp
      from step_pops[OF st] obtain e0 el where pop: "heappop (event_list s) = Some (e0, el)"
        by blast
      have I': "I s'" using pres Is True st by blast
      show ?thesis
      proof (cases f)
        case Break
        with st have "history p s = [(s, e0, s')]" using True pop by (simp add: history_break)
        with goal Is I' True pop st show ?thesis by auto
      next
        case Next
        with st have h: "history p s = (s, e0, s') # history p s'"
          using True pop by (simp add: history_next)
        have ih: "(a, e, b) \<in> set (history p s') \<Longrightarrow>
           I a \<and> loop_cond a \<and> I b \<and> (\<exists>el. heappop (event_list a) = Some (e, el)) \<and>
           (\<exists>f. step p a = Inr (b, f))"
          using "1.IH"[OF True pop refl _ refl Next pres I'] st Next by blast
        from goal h have "(a, e, b) = (s, e0, s') \<or> (a, e, b) \<in> set (history p s')"
          by simp
        then show ?thesis
          using ih Is I' True pop st by auto
      qed
    qed
  qed
qed

lemma loop_invariant:
  shows "\<forall>s s' f. I s \<longrightarrow> loop_cond s \<longrightarrow> step p s = Inr (s', f) \<longrightarrow> I s' \<Longrightarrow>
         I s \<Longrightarrow> loop p s = Inr sf \<Longrightarrow> I sf"
proof (induction p s rule: loop.induct)
  case (1 p s)
  note pres = "1.prems"(1) and Is = "1.prems"(2) and goal = "1.prems"(3)
  show ?case
  proof (cases "loop_cond s")
    case False
    with "1.prems" show ?thesis by (simp add: loop_stop)
  next
    case True
    show ?thesis
    proof (cases "step p s")
      case (Inl err)
      with "1.prems" True show ?thesis by (simp add: loop_err)
    next
      case (Inr r)
      obtain s' f where r: "r = (s', f)" by (cases r)
      with Inr have st: "step p s = Inr (s', f)" by simp
      have I': "I s'" using pres Is True st by blast
      show ?thesis
      proof (cases f)
        case Break
        with st True goal have "sf = s'" by (simp add: loop_break)
        with I' show ?thesis by simp
      next
        case Next
        with st True goal have "loop p s' = Inr sf" by (simp add: loop_next)
        with "1.IH"[OF True _ refl Next pres I'] st Next show ?thesis by blast
      qed
    qed
  qed
qed

subsection \<open>Losses, results and the event count\<close>

text \<open>What one pass does to the loss counter and the occupancy.\<close>

lemma step_losses:
  assumes st: "step p s = Inr (s', f)" and pop: "heappop (event_list s) = Some ((t, ty), el)"
  shows "(if ty = Arrival \<and> \<not> state s < capacity p
          then losses s' = losses s + 1 \<and> state s' = state s
          else losses s' = losses s)"
proof -
  from st obtain t' ty' el' tis where
    pop': "heappop (event_list s) = Some ((t', ty'), el')" and
    r: "(s', f) = (case ty' of
        Arrival \<Rightarrow> on_arrival p (s\<lparr>event_list := el', time_in_state := tis, current_time := t'\<rparr>)
      | Departure \<Rightarrow> on_departure p (s\<lparr>event_list := el', time_in_state := tis, current_time := t'\<rparr>))"
    by (rule step_elim)
  from pop pop' have "ty' = ty" by simp
  with r on_arrival_effect[OF sym, of s' f p] on_departure_effect[OF sym, of s' f p]
  show ?thesis by (cases ty) (auto split: if_splits)
qed

text \<open>With a nonnegative capacity no pass raises, so the loop returns a state.\<close>

lemma step_succeeds:
  assumes "occ_inv p s" "0 \<le> capacity p" "event_list s \<noteq> []"
  shows "\<exists>s' f. step p s = Inr (s', f)"
proof -
  from assms(3) obtain e el where pop: "heappop (event_list s) = Some (e, el)"
    using heappop_None[of "event_list s"] by (cases "heappop (event_list s)") auto
  obtain t ty where e: "e = (t, ty)" by (cases e)
  have "0 \<le> state s" "state s < int (length (time_in_state s))"
    using assms(1,2) by (auto simp: occ_inv_def)
  then obtain tis where "add_at (time_in_state s) (state s) (t - current_time s) = Inr tis"
    by (simp add: add_at_def Let_def)
  with pop e show ?thesis
    by (cases "case ty of Arrival \<Rightarrow> on_arrival p (s\<lparr>event_list := el, time_in_state := tis, current_time := t\<rparr>)
        | Departure \<Rightarrow> on_departure p (s\<lparr>event_list := el, time_in_state := tis, current_time := t\<rparr>)")
       (simp add: step_def Let_def)
qed

lemma loop_returns:
  "occ_inv p s \<Longrightarrow> 0 \<le> capacity p \<Longrightarrow> \<exists>sf. loop p s = Inr sf"
proof (induction p s rule: loop.induct)
  case (1 p s)
  show ?case
  proof (cases "loop_cond s")
    case False
    then show ?thesis by (simp add: loop_stop)
  next
    case True
    then have "event_list s \<noteq> []" by (simp add: loop_cond_def)
    from step_succeeds[OF "1.prems"(1,2) this] obtain s' f where st: "step p s = Inr (s', f)"
      by blast
    show ?thesis
    proof (cases f)
      case Break
      with st True show ?thesis by (simp add: loop_break)
    next
      case Next
      have "occ_inv p s'" using step_occ_inv[OF st "1.prems"(1)] by simp
      from "1.IH"[OF True st refl Next this "1.prems"(2)] st Next True
      show ?thesis by (simp add: loop_next)
    qed
  qed
qed

text \<open>The number of processed events against the draws and the pending events.\<close>

lemma history_length:
  "0 \<le> random_count (rng s) \<Longrightarrow>
     int (length (history p s)) \<le> int (length (event_list s)) + random_count (rng s)"
proof (induction p s rule: history.induct)
  case (1 p s)
  show ?case
  proof (cases "loop_cond s")
    case False
    with "1.prems" show ?thesis by (simp add: history_stop)
  next
    case True
    show ?thesis
    proof (cases "step p s")
      case (Inl err)
      with "1.prems" show ?thesis by (simp add: history_err)
    next
      case (Inr r)
      obtain s' f where r: "r = (s', f)" by (cases r)
      with Inr have st: "step p s = Inr (s', f)" by simp
      from step_pops[OF st] obtain e el where pop: "heappop (event_list s) = Some (e, el)"
        by blast
      note b = step_budget[OF st "1.prems"]
      show ?thesis
      proof (cases f)
        case Break
        with st True pop have "history p s = [(s, e, s')]" by (simp add: history_break)
        with b show ?thesis by simp
      next
        case Next
        with st True pop have h: "history p s = (s, e, s') # history p s'"
          by (simp add: history_next)
        from "1.IH"[OF True pop refl st refl Next] b h show ?thesis by simp
      qed
    qed
  qed
qed

lemma step_draws:
  assumes "step p s = Inr (s', f)"
  shows "random_count (rng s') \<le> random_count (rng s)"
proof -
  have a: "on_arrival p s1 = (s', f) \<Longrightarrow> random_count (rng s') \<le> random_count (rng s1)" for s1
    by (auto simp: on_arrival_def Let_def schedule_departure_eq schedule_arrival_eq advance_def
             split: if_splits prod.splits flow.splits)
  have d: "on_departure p s1 = (s', f) \<Longrightarrow> random_count (rng s') \<le> random_count (rng s1)" for s1
    by (auto simp: on_departure_def Let_def schedule_departure_eq advance_def split: if_splits)
  from assms obtain t ty el tis where
    r: "(s', f) = (case ty of
        Arrival \<Rightarrow> on_arrival p (s\<lparr>event_list := el, time_in_state := tis, current_time := t\<rparr>)
      | Departure \<Rightarrow> on_departure p (s\<lparr>event_list := el, time_in_state := tis, current_time := t\<rparr>))"
    by (rule step_elim)
  let ?s1 = "s\<lparr>event_list := el, time_in_state := tis, current_time := t\<rparr>"
  show ?thesis
  proof (cases ty)
    case Arrival
    with r have "on_arrival p ?s1 = (s', f)" by simp
    from a[OF this] show ?thesis by simp
  next
    case Departure
    with r have "on_departure p ?s1 = (s', f)" by simp
    from d[OF this] show ?thesis by simp
  qed
qed

lemma loop_budget:
  "0 \<le> random_count (rng s) \<Longrightarrow> loop p s = Inr sf \<Longrightarrow>
     0 \<le> random_count (rng sf) \<and> random_count (rng sf) \<le> random_count (rng s)"
proof -
  assume rc: "0 \<le> random_count (rng s)" and l: "loop p s = Inr sf"
  let ?I = "\<lambda>x. 0 \<le> random_count (rng x) \<and> random_count (rng x) \<le> random_count (rng s)"
  have "\<forall>x x' f. ?I x \<longrightarrow> loop_cond x \<longrightarrow> step p x = Inr (x', f) \<longrightarrow> ?I x'"
    using step_budget step_draws by fastforce
  from loop_invariant[of ?I p, OF this _ l] rc show ?thesis by simp
qed

subsection \<open>Four concrete runs\<close>

text \<open>
  \<open>tie_run\<close>: one server, no waiting room, constant service and interarrival times of 3,
  four draws. \<open>neg_run\<close>: a first arrival at a negative time and a single draw.
  \<open>bad_run\<close>: no server and both intervals reversed. \<open>neg_capacity_run\<close>: a capacity
  of -1.
\<close>

definition tie_run :: params where
  "tie_run = \<lparr>servers = 1, capacity = 1, first_arrival = 2, min_arrival = 3, max_arrival = 3,
     min_service = 3, max_service = 3, num_randoms = 4, seed = 12345\<rparr>"

definition neg_run :: params where
  "neg_run = \<lparr>servers = 1, capacity = 1, first_arrival = - 5, min_arrival = 2, max_arrival = 5,
     min_service = 3, max_service = 5, num_randoms = 1, seed = 12345\<rparr>"

definition bad_run :: params where
  "bad_run = \<lparr>servers = 0, capacity = 1, first_arrival = 2, min_arrival = 5, max_arrival = 2,
     min_service = 5, max_service = 3, num_randoms = 1, seed = 12345\<rparr>"

lemma small_lists:
  "replicate 2 x = [x, x]" "[0..<2] = [0, Suc 0]"
  by (simp_all add: numeral_2_eq_2)

lemmas run_eval = small_lists
  step_def heappop_def least_event_def add_at_def on_arrival_def on_departure_def
  schedule_departure_def schedule_arrival_def next_random_def heappush_def
  lcg_a_def lcg_c_def lcg_M_def loop_cond_def Let_def init_sim_def reset_random_def
  result_of_def probabilities_of_def avg_population_of_def simulate_queue_def

lemma tie_history:
  "map (fst \<circ> snd) (history tie_run (init_sim tie_run)) =
     [(2, Arrival), (5, Arrival), (5, Departure), (8, Arrival)]"
  by (simp add: history.simps tie_run_def run_eval)

lemma tie_result:
  "simulate_queue tie_run =
   Inr \<lparr>simulation_time = 8, res_time_in_state = [5, 3],
        probabilities = [125 / 2, 75 / 2], res_losses = 1,
        avg_population = 3 / 8, res_servers = 1, res_capacity = 1,
        res_min_arrival = 3, res_max_arrival = 3, res_min_service = 3,
        res_max_service = 3\<rparr>"
  by (simp add: loop.simps tie_run_def run_eval)

lemma neg_result:
  "simulate_queue neg_run =
   Inr \<lparr>simulation_time = - 5, res_time_in_state = [- 5, 0],
        probabilities = [0, 0], res_losses = 0, avg_population = 0,
        res_servers = 1, res_capacity = 1, res_min_arrival = 2,
        res_max_arrival = 5, res_min_service = 3, res_max_service = 5\<rparr>"
  by (simp add: loop.simps neg_run_def run_eval)

lemma bad_result:
  "simulate_queue bad_run =
   Inr \<lparr>simulation_time = 2, res_time_in_state = [2, 0],
        probabilities = [100, 0], res_losses = 0, avg_population = 0,
        res_servers = 0, res_capacity = 1, res_min_arrival = 5,
        res_max_arrival = 2, res_min_service = 5, res_max_service = 3\<rparr>"
  by (simp add: loop.simps bad_run_def run_eval)

definition neg_capacity_run :: params where
  "neg_capacity_run = \<lparr>servers = 1, capacity = - 1, first_arrival = 2, min_arrival = 2,
     max_arrival = 5, min_service = 3, max_service = 5, num_randoms = 1, seed = 12345\<rparr>"

lemma init_fields:
  "random_count (rng (init_sim p)) = num_randoms p"
  "event_list (init_sim p) = [(first_arrival p, Arrival)]"
  "state (init_sim p) = 0" "losses (init_sim p) = 0" "current_time (init_sim p) = 0"
  "time_in_state (init_sim p) = replicate (nat (capacity p + 1)) 0"
  by (simp_all add: init_sim_def reset_random_def heappush_def)

lemma occ_pres:
  "\<forall>s s' f. occ_inv p s \<longrightarrow> loop_cond s \<longrightarrow> step p s = Inr (s', f) \<longrightarrow> occ_inv p s'"
  using step_occ_inv by blast


section \<open>The generator\<close>

lemma draws_Suc_right:
  "draws (Suc n) g =
     (case draws n g of (rs, g') \<Rightarrow> (case next_random g' of (r, g'') \<Rightarrow> (rs @ [r], g'')))"
proof (induction n arbitrary: g)
  case 0
  show ?case by (simp split: prod.splits)
next
  case (Suc n)
  obtain r g1 where nr: "next_random g = (r, g1)" by (cases "next_random g")
  obtain rs g2 where d: "draws n g1 = (rs, g2)" by (cases "draws n g1")
  obtain r2 g3 where nr2: "next_random g2 = (r2, g3)" by (cases "next_random g2")
  have "draws (Suc n) g1 = (rs @ [r2], g3)"
    by (simp only: Suc.IH d nr2 prod.case)
  then have lhs: "draws (Suc (Suc n)) g = (r # rs @ [r2], g3)"
    by (simp add: nr)
  have "draws (Suc n) g = (r # rs, g2)" by (simp add: nr d)
  then show ?case by (simp only: lhs nr2 prod.case append_Cons)
qed

lemma draws_within_budget:
  "random_count g = int m \<Longrightarrow> n \<le> m \<Longrightarrow>
   draws n g =
     (map (\<lambda>k. Inr (variate ((lcg ^^ k) (previous g)))) [0..<n],
      \<lparr>previous = (lcg ^^ n) (previous g), random_count = int m - int n\<rparr>)"
proof (induction n arbitrary: g m)
  case 0
  then show ?case by simp
next
  case (Suc n)
  from Suc.prems obtain m' where m: "m = Suc m'" by (cases m) auto
  have adv: "random_count (advance g) = int m'" "previous (advance g) = lcg (previous g)"
    using Suc.prems m by (simp_all add: advance_def)
  have nr: "next_random g = (Inr (variate (previous g)), advance g)"
    using Suc.prems m by (simp add: next_random_eq)
  have "n \<le> m'" using Suc.prems m by simp
  from Suc.IH[OF adv(1) this]
  show ?case
    by (simp add: nr adv m map_upt_Suc funpow_swap1 del: upt_Suc)
qed

text \<open>
  C3. After \<^verbatim>\<open>reset_random(seed, budget)\<close> with a positive budget, the first \<open>budget\<close>
  calls of \<^verbatim>\<open>next_random\<close> succeed, call \<open>k+1\<close> returning the \<open>(k+1)\<close>-fold iterate of
  the recurrence on the seed divided by \<open>M\<close>; the call after them fails with the
  exhaustion error and leaves the count at zero. The recurrence is
  \<open>x \<mapsto> (1664525 x + 1013904223) mod 2^32\<close>, and every variate lies in \<open>[0, 1)\<close>. The
  outcomes are given as a function of the seed and the budget alone.
\<close>

theorem next_random_budget:
  assumes "0 < budget"
  shows "fst (draws (Suc (nat budget)) (reset_random sd budget)) =
           map (\<lambda>k. Inr (of_int ((lcg ^^ Suc k) sd) / of_int lcg_M)) [0..<nat budget]
           @ [Inl Exhausted]
         \<and> snd (draws (Suc (nat budget)) (reset_random sd budget)) =
             \<lparr>previous = (lcg ^^ nat budget) sd, random_count = 0\<rparr>
         \<and> (\<forall>x. lcg x = (1664525 * x + 1013904223) mod 2 ^ 32 \<and> lcg_M = 2 ^ 32
               \<and> 0 \<le> (of_int (lcg x) / of_int lcg_M :: rat)
               \<and> (of_int (lcg x) / of_int lcg_M :: rat) < 1)"
proof -
  let ?m = "nat budget"
  let ?g = "reset_random sd budget"
  have rc: "random_count ?g = int ?m" and pv: "previous ?g = sd"
    using assms by (simp_all add: reset_random_def)
  have d: "draws ?m ?g =
     (map (\<lambda>k. Inr (variate ((lcg ^^ k) sd))) [0..<?m],
      \<lparr>previous = (lcg ^^ ?m) sd, random_count = 0\<rparr>)"
    using draws_within_budget[OF rc order_refl] by (simp add: pv)
  have last: "next_random \<lparr>previous = (lcg ^^ ?m) sd, random_count = 0\<rparr> =
     (Inl Exhausted, \<lparr>previous = (lcg ^^ ?m) sd, random_count = 0\<rparr>)"
    by (simp add: next_random_eq)
  have "draws (Suc ?m) ?g =
     (map (\<lambda>k. Inr (variate ((lcg ^^ k) sd))) [0..<?m] @ [Inl Exhausted],
      \<lparr>previous = (lcg ^^ ?m) sd, random_count = 0\<rparr>)"
    by (simp only: draws_Suc_right d last prod.case)
  moreover have "\<And>x. lcg x = (1664525 * x + 1013904223) mod 2 ^ 32"
    by (simp add: lcg_def lcg_a_def lcg_c_def lcg_M_def)
  moreover have "lcg_M = 2 ^ 32" by (simp add: lcg_M_def)
  ultimately show ?thesis
    using variate_bounds by (simp add: variate_def)
qed

theorem next_random_budget_witness:
  "fst (draws 3 (reset_random 12345 2)) =
     [Inr (of_int 87628868 / of_int 4294967296), Inr (of_int 71072467 / of_int 4294967296),
      Inl Exhausted]"
  using next_random_budget[of 2 12345]
  by (simp add: lcg_def lcg_a_def lcg_c_def lcg_M_def numeral_2_eq_2 numeral_3_eq_3)

text \<open>
  C8. A call of \<^verbatim>\<open>next_random\<close> with no draws left fails with the exhaustion error and
  leaves both globals, \<^verbatim>\<open>previous\<close> and \<^verbatim>\<open>random_count\<close>, as they were.
\<close>

theorem next_random_exhausted:
  "random_count g \<le> 0 \<Longrightarrow> next_random g = (Inl Exhausted, g)"
  by (simp add: next_random_def)

theorem next_random_exhausted_witness:
  "next_random \<lparr>previous = 87628868, random_count = 0\<rparr> =
     (Inl Exhausted, \<lparr>previous = 87628868, random_count = 0\<rparr>)
   \<and> next_random \<lparr>previous = 5, random_count = - 3\<rparr> =
     (Inl Exhausted, \<lparr>previous = 5, random_count = - 3\<rparr>)"
  using next_random_exhausted[of "\<lparr>previous = 87628868, random_count = 0\<rparr>"]
        next_random_exhausted[of "\<lparr>previous = 5, random_count = - 3\<rparr>"]
  by simp

section \<open>Parameters\<close>

text \<open>
  C1, as stated, fails: \<^verbatim>\<open>simulate_queue\<close> has no parameter check. Called with no server
  and with both intervals reversed it runs and returns a result.
\<close>

theorem simulate_queue_counterexample_invalid:
  "servers bad_run \<le> 0 \<and> max_arrival bad_run < min_arrival bad_run \<and>
   max_service bad_run < min_service bad_run \<and>
   simulate_queue bad_run =
     Inr \<lparr>simulation_time = 2, res_time_in_state = [2, 0],
          probabilities = [100, 0], res_losses = 0, avg_population = 0,
          res_servers = 0, res_capacity = 1, res_min_arrival = 5,
          res_max_arrival = 2, res_min_service = 5, res_max_service = 3\<rparr>"
  by (simp add: loop.simps bad_run_def run_eval)

text \<open>
  C1, amended. \<^verbatim>\<open>simulate_queue\<close> rejects no parameters as such. The call fails exactly
  when the capacity is negative and the budget positive, and then with the index error of
  \<^verbatim>\<open>time_in_state[state]\<close> on the empty list in the first pass of the loop; every other call returns a
  result. With a budget of zero or less no event is processed and the result is the one
  of the initial state.
\<close>

theorem simulate_queue_fails_only_on_index:
  "(if capacity p < 0 \<and> 0 < num_randoms p
    then loop_cond (init_sim p) \<and> step p (init_sim p) = Inl IndexError \<and>
         simulate_queue p = Inl IndexError
    else (\<exists>sf. loop p (init_sim p) = Inr sf \<and> simulate_queue p = Inr (result_of p sf)))
   \<and> (num_randoms p \<le> 0 \<longrightarrow>
        history p (init_sim p) = [] \<and> simulate_queue p = Inr (result_of p (init_sim p)))"
proof -
  have stop: "num_randoms p \<le> 0 \<Longrightarrow> \<not> loop_cond (init_sim p)"
    by (simp add: loop_cond_def init_fields)
  have a: "loop_cond (init_sim p) \<and> step p (init_sim p) = Inl IndexError \<and>
           simulate_queue p = Inl IndexError" if "capacity p < 0" "0 < num_randoms p"
  proof -
    have c: "loop_cond (init_sim p)" using that by (simp add: loop_cond_def init_fields)
    have "step p (init_sim p) = Inl IndexError"
      using that by (simp add: step_def init_fields heappop_def least_event_def add_at_def)
    with c show ?thesis by (simp add: simulate_queue_def loop_err)
  qed
  have b: "\<exists>sf. loop p (init_sim p) = Inr sf \<and> simulate_queue p = Inr (result_of p sf)"
    if "\<not> (capacity p < 0 \<and> 0 < num_randoms p)"
  proof (cases "0 \<le> capacity p")
    case True
    from loop_returns[OF init_occ_inv True] obtain sf where "loop p (init_sim p) = Inr sf" by blast
    then show ?thesis by (simp add: simulate_queue_def)
  next
    case False
    with that have "num_randoms p \<le> 0" by simp
    from stop[OF this] show ?thesis by (simp add: simulate_queue_def loop_stop)
  qed
  have c: "history p (init_sim p) = [] \<and> simulate_queue p = Inr (result_of p (init_sim p))"
    if "num_randoms p \<le> 0"
    using stop[OF that] by (simp add: simulate_queue_def loop_stop history_stop)
  from a b c show ?thesis by simp
qed

theorem simulate_queue_fails_only_on_index_witness:
  "simulate_queue neg_capacity_run = Inl IndexError \<and>
   (\<exists>sf. loop bad_run (init_sim bad_run) = Inr sf \<and>
         simulate_queue bad_run = Inr (result_of bad_run sf)) \<and>
   simulate_queue (bad_run\<lparr>num_randoms := 0\<rparr>) =
     Inr (result_of (bad_run\<lparr>num_randoms := 0\<rparr>) (init_sim (bad_run\<lparr>num_randoms := 0\<rparr>)))"
  using simulate_queue_fails_only_on_index[of neg_capacity_run]
        simulate_queue_fails_only_on_index[of bad_run]
        simulate_queue_fails_only_on_index[of "bad_run\<lparr>num_randoms := 0\<rparr>"]
  by (simp add: neg_capacity_run_def bad_run_def)

section \<open>The event list\<close>

text \<open>
  C2, as stated, fails on ties. The events are bare \<^verbatim>\<open>(time, type)\<close> tuples with no
  sequence number, so two events at the same time are ordered by their type string, and
  an arrival comes out before a departure that was pushed earlier. This happens in a run:
  in \<open>tie_run\<close> the first arrival pushes its departure for time 5 and then the next arrival
  for time 5, and the second processed event is that arrival.
\<close>

theorem heappop_counterexample_tie:
  "heappop (heappush (heappush [] (5, Departure)) (5, Arrival)) =
     Some ((5, Arrival), [(5, Departure)])
   \<and> map (\<lambda>(a, e, b). (event_list a, e)) (history tie_run (init_sim tie_run)) =
     [([(2, Arrival)], (2, Arrival)),
      ([(5, Departure), (5, Arrival)], (5, Arrival)),
      ([(5, Departure), (8, Arrival)], (5, Departure)),
      ([(8, Arrival)], (8, Arrival))]"
proof -
  have "heappop (heappush (heappush [] (5, Departure)) (5, Arrival)) =
     Some ((5, Arrival), [(5, Departure)])"
    by (simp add: heappop_def heappush_def least_event_def)
  moreover have "map (\<lambda>(a, e, b). (event_list a, e)) (history tie_run (init_sim tie_run)) =
     [([(2, Arrival)], (2, Arrival)),
      ([(5, Departure), (5, Arrival)], (5, Arrival)),
      ([(5, Departure), (8, Arrival)], (5, Departure)),
      ([(8, Arrival)], (8, Arrival))]"
    by (simp add: history.simps tie_run_def run_eval)
  ultimately show ?thesis by (rule conjI)
qed

lemma not_less_event:
  "\<not> tuple_less x e \<Longrightarrow> fst e \<le> fst x \<and> (fst x = fst e \<and> snd x = Arrival \<longrightarrow> snd e = Arrival)"
  by (cases x; cases e; cases "snd e"; cases "snd x") auto

text \<open>
  C2, amended. \<^verbatim>\<open>heappop\<close> fails exactly on the empty list; otherwise it removes and returns
  a pending event of the smallest time, and among the pending events of that time an
  arrival before any departure: ties are broken by the event type, not by insertion order.
\<close>

theorem heappop_least_time_then_type:
  "(heappop el = None \<longleftrightarrow> el = []) \<and>
   (\<forall>e el'. heappop el = Some (e, el') \<longrightarrow>
      e \<in> set el \<and> el' = remove1 e el \<and>
      (\<forall>x \<in> set el. fst e \<le> fst x \<and> (fst x = fst e \<and> snd x = Arrival \<longrightarrow> snd e = Arrival)))"
proof (intro conjI allI impI ballI)
  show "heappop el = None \<longleftrightarrow> el = []" by (rule heappop_None)
next
  fix e el' assume "heappop el = Some (e, el')"
  then show "e \<in> set el" by (simp add: heappop_Some)
next
  fix e el' assume "heappop el = Some (e, el')"
  then show "el' = remove1 e el" by (simp add: heappop_Some)
next
  fix e el' x assume "heappop el = Some (e, el')" "x \<in> set el"
  then have "\<not> tuple_less x e" by (rule heappop_least)
  then show "fst e \<le> fst x" by (simp add: not_less_event)
next
  fix e el' x assume "heappop el = Some (e, el')" "x \<in> set el" "fst x = fst e \<and> snd x = Arrival"
  then have "\<not> tuple_less x e" "fst x = fst e" "snd x = Arrival" by (auto dest: heappop_least)
  then show "snd e = Arrival" using not_less_event by blast
qed

theorem heappop_least_time_then_type_witness:
  "heappop [(7, Arrival), (5, Departure), (5, Arrival), (5, Departure)] =
     Some ((5, Arrival), [(7, Arrival), (5, Departure), (5, Departure)])
   \<and> (5, Arrival) \<in> set [(7, Arrival), (5, Departure), (5, Arrival), (5 :: rat, Departure)]
   \<and> list_all (\<lambda>x. (5::rat) \<le> fst x) [(7, Arrival), (5, Departure), (5, Arrival), (5, Departure)]"
proof -
  let ?el = "[(7, Arrival), (5, Departure), (5, Arrival), (5, Departure)] :: event list"
  let ?rest = "[(7, Arrival), (5, Departure), (5, Departure)] :: event list"
  have pop: "heappop ?el = Some ((5, Arrival), ?rest)"
    by (simp add: heappop_def least_event_def)
  have spec: "\<forall>e el'. heappop ?el = Some (e, el') \<longrightarrow>
      e \<in> set ?el \<and> el' = remove1 e ?el \<and>
      (\<forall>x \<in> set ?el. fst e \<le> fst x \<and> (fst x = fst e \<and> snd x = Arrival \<longrightarrow> snd e = Arrival))"
    using heappop_least_time_then_type[of ?el] by (rule conjunct2)
  from spec[rule_format, OF pop]
  have "(5, Arrival) \<in> set ?el" and "\<forall>x \<in> set ?el. fst (5::rat, Arrival) \<le> fst x"
    by blast+
  with pop show ?thesis by (simp add: list_all_iff)
qed

section \<open>Occupancy and losses\<close>

text \<open>
  The processed events of a call are \<open>history p (init_sim p)\<close>: for each of them the
  state when it was popped, the event, and the state its handling left.
\<close>

lemma history_occ:
  assumes "(a, e, b) \<in> set (history p (init_sim p))"
  shows "occ_inv p a \<and> occ_inv p b \<and> 0 \<le> capacity p \<and> state a \<le> capacity p \<and>
         (\<exists>el. heappop (event_list a) = Some (e, el)) \<and> (\<exists>f. step p a = Inr (b, f))"
proof -
  from history_invariant[of "occ_inv p" p, OF occ_pres init_occ_inv assms]
  obtain el f where a: "occ_inv p a" and b: "occ_inv p b"
    and pop: "heappop (event_list a) = Some (e, el)" and st: "step p a = Inr (b, f)"
    by blast
  from step_occ_inv[OF st a] a b pop st show ?thesis by blast
qed

lemma tie_run_states:
  "map (\<lambda>(a, e, b). ((state a, losses a), e, (state b, losses b)))
       (history tie_run (init_sim tie_run)) =
     [((0, 0), (2, Arrival), (1, 0)),
      ((1, 0), (5, Arrival), (1, 1)),
      ((1, 1), (5, Departure), (0, 1)),
      ((0, 1), (8, Arrival), (1, 1))]"
  by (simp add: history.simps tie_run_def run_eval)

text \<open>
  C5. At every processed event of every call the occupancy is between 0 and the capacity,
  both when the event is popped and after it has been handled.
\<close>

theorem occupancy_within_capacity:
  "(a, e, b) \<in> set (history p (init_sim p)) \<Longrightarrow>
     0 \<le> state a \<and> state a \<le> capacity p \<and> 0 \<le> state b \<and> state b \<le> capacity p"
proof -
  assume "(a, e, b) \<in> set (history p (init_sim p))"
  from history_occ[OF this]
  have "occ_inv p a" "occ_inv p b" "0 \<le> capacity p" "state a \<le> capacity p" by blast+
  then show ?thesis by (simp add: occ_inv_def)
qed

theorem occupancy_within_capacity_witness:
  "map (\<lambda>(a, e, b). (state a, state b)) (history tie_run (init_sim tie_run)) =
     [(0, 1), (1, 1), (1, 0), (0, 1)]
   \<and> list_all (\<lambda>(a, e, b). 0 \<le> state a \<and> state a \<le> capacity tie_run \<and>
                            0 \<le> state b \<and> state b \<le> capacity tie_run)
        (history tie_run (init_sim tie_run))"
proof -
  have "list_all (\<lambda>(a, e, b). 0 \<le> state a \<and> state a \<le> capacity tie_run \<and>
                            0 \<le> state b \<and> state b \<le> capacity tie_run)
        (history tie_run (init_sim tie_run))"
    unfolding list_all_iff using occupancy_within_capacity[of _ _ _ tie_run] by fast
  moreover have "map (\<lambda>(a, e, b). (state a, state b)) (history tie_run (init_sim tie_run)) =
     [(0, 1), (1, 1), (1, 0), (0, 1)]"
    using arg_cong[OF tie_run_states, of "map (\<lambda>((x, _), _, (y, _)). (x, y))"]
    by (simp add: comp_def case_prod_unfold)
  ultimately show ?thesis by simp
qed

text \<open>
  C7. At every processed event the loss counter goes up, by exactly one, if and only if
  the event is an arrival popped while the occupancy equals the capacity; it is unchanged
  otherwise, and such a rejected arrival leaves the occupancy as it was.
\<close>

theorem losses_increment_iff_full_arrival:
  "(a, e, b) \<in> set (history p (init_sim p)) \<Longrightarrow>
     (losses b = losses a + 1 \<longleftrightarrow> snd e = Arrival \<and> state a = capacity p) \<and>
     (losses b = losses a \<or> losses b = losses a + 1) \<and>
     (snd e = Arrival \<and> state a = capacity p \<longrightarrow> state b = state a)"
proof -
  assume "(a, e, b) \<in> set (history p (init_sim p))"
  from history_occ[OF this] obtain el f where
    le: "state a \<le> capacity p" and pop: "heappop (event_list a) = Some (e, el)"
    and st: "step p a = Inr (b, f)" by blast
  obtain t ty where e: "e = (t, ty)" by (cases e)
  from step_losses[OF st pop[unfolded e]] le e
  show ?thesis by (auto split: if_splits)
qed

theorem losses_increment_iff_full_arrival_witness:
  "map (\<lambda>(a, e, b). ((state a, losses a), e, (state b, losses b)))
       (history tie_run (init_sim tie_run)) =
     [((0, 0), (2, Arrival), (1, 0)),
      ((1, 0), (5, Arrival), (1, 1)),
      ((1, 1), (5, Departure), (0, 1)),
      ((0, 1), (8, Arrival), (1, 1))]
   \<and> list_all (\<lambda>(a, e, b).
        (losses b = losses a + 1) = (snd e = Arrival \<and> state a = capacity tie_run))
        (history tie_run (init_sim tie_run))"
proof -
  have "list_all (\<lambda>(a, e, b).
        (losses b = losses a + 1) = (snd e = Arrival \<and> state a = capacity tie_run))
        (history tie_run (init_sim tie_run))"
    unfolding list_all_iff using losses_increment_iff_full_arrival[of _ _ _ tie_run] by fast
  with tie_run_states show ?thesis by simp
qed

section \<open>The returned record\<close>

lemma simulate_queue_Inr:
  "simulate_queue p = Inr r \<Longrightarrow> \<exists>sf. loop p (init_sim p) = Inr sf \<and> r = result_of p sf"
  by (auto simp: simulate_queue_def split: sum.splits)

lemma result_fields:
  "simulation_time (result_of p s) = current_time s"
  "res_time_in_state (result_of p s) = time_in_state s"
  "res_losses (result_of p s) = losses s"
  "probabilities (result_of p s) = probabilities_of (time_in_state s) (current_time s)"
  "avg_population (result_of p s) = avg_population_of (time_in_state s) (current_time s)"
  by (simp_all add: result_of_def)

lemma tie_loop:
  "loop tie_run (init_sim tie_run) =
     Inr \<lparr>rng = \<lparr>previous = 2726892157, random_count = 0\<rparr>, current_time = 8,
          state = 1, losses = 1, time_in_state = [5, 3],
          event_list = [(11, Departure)]\<rparr>"
  by (simp add: loop.simps tie_run_def run_eval)

section \<open>Termination and the draw budget\<close>

lemma step_break:
  assumes "step p s = Inr (s', Break)"
  shows "random_count (rng s') \<le> 0"
proof -
  have a: "on_arrival p s1 = (s', Break) \<Longrightarrow> random_count (rng s') \<le> 0" for s1
    by (auto simp: on_arrival_def Let_def schedule_departure_eq schedule_arrival_eq
             split: if_splits prod.splits flow.splits)
  have d: "on_departure p s1 = (s', Break) \<Longrightarrow> random_count (rng s') \<le> 0" for s1
    by (auto simp: on_departure_def Let_def schedule_departure_eq split: if_splits)
  from assms obtain t ty el tis where
    r: "(s', Break) = (case ty of
        Arrival \<Rightarrow> on_arrival p (s\<lparr>event_list := el, time_in_state := tis, current_time := t\<rparr>)
      | Departure \<Rightarrow> on_departure p (s\<lparr>event_list := el, time_in_state := tis, current_time := t\<rparr>))"
    by (rule step_elim)
  let ?s1 = "s\<lparr>event_list := el, time_in_state := tis, current_time := t\<rparr>"
  show ?thesis
  proof (cases ty)
    case Arrival
    with r have "on_arrival p ?s1 = (s', Break)" by simp
    then show ?thesis by (rule a)
  next
    case Departure
    with r have "on_departure p ?s1 = (s', Break)" by simp
    then show ?thesis by (rule d)
  qed
qed

lemma loop_final: "loop p s = Inr sf \<Longrightarrow> \<not> loop_cond sf"
proof (induction p s rule: loop.induct)
  case (1 p s)
  show ?case
  proof (cases "loop_cond s")
    case False
    with "1.prems" show ?thesis by (simp add: loop_stop)
  next
    case True
    show ?thesis
    proof (cases "step p s")
      case (Inl err)
      with "1.prems" True show ?thesis by (simp add: loop_err)
    next
      case (Inr r)
      obtain s' f where r: "r = (s', f)" by (cases r)
      with Inr have st: "step p s = Inr (s', f)" by simp
      show ?thesis
      proof (cases f)
        case Break
        with st True "1.prems" have "sf = s'" by (simp add: loop_break)
        with step_break[of p s s'] st Break show ?thesis by (simp add: loop_cond_def)
      next
        case Next
        with st True "1.prems" have "loop p s' = Inr sf" by (simp add: loop_next)
        with "1.IH"[OF True st refl Next] show ?thesis by simp
      qed
    qed
  qed
qed


text \<open>
  C9. The loop is a total function: its definition above comes with the proof that
  pending events plus remaining draws decrease with every pass. For every call with a
  nonnegative capacity, which valid parameters have, the call returns a result, the loop
  has ended with no pending event or with no draw left, at most \<open>2 * budget\<close> events were
  processed, and the number of successful draws, which is the budget minus the count left
  in the generator, is between 0 and the budget.
\<close>

theorem simulate_queue_terminates_within_budget:
  assumes "0 \<le> capacity p"
  shows "\<exists>sf. loop p (init_sim p) = Inr sf \<and> simulate_queue p = Inr (result_of p sf) \<and>
           (event_list sf = [] \<or> random_count (rng sf) \<le> 0) \<and>
           length (history p (init_sim p)) \<le> 2 * nat (num_randoms p) \<and>
           0 \<le> num_randoms p - random_count (rng sf) \<and>
           num_randoms p - random_count (rng sf) \<le> max 0 (num_randoms p)"
proof -
  from loop_returns[OF init_occ_inv assms] obtain sf where l: "loop p (init_sim p) = Inr sf"
    by blast
  then have s: "simulate_queue p = Inr (result_of p sf)" by (simp add: simulate_queue_def)
  from loop_final[OF l] have fin: "event_list sf = [] \<or> random_count (rng sf) \<le> 0"
    by (auto simp: loop_cond_def)
  show ?thesis
  proof (cases "0 < num_randoms p")
    case True
    then have rc: "0 \<le> random_count (rng (init_sim p))" by (simp add: init_fields)
    from history_length[OF rc, of p]
    have "int (length (history p (init_sim p))) \<le> 1 + num_randoms p" by (simp add: init_fields)
    with True have "length (history p (init_sim p)) \<le> 2 * nat (num_randoms p)" by linarith
    moreover from loop_budget[OF rc l]
    have "0 \<le> random_count (rng sf)" "random_count (rng sf) \<le> num_randoms p"
      by (simp_all add: init_fields)
    ultimately show ?thesis using l s fin by auto
  next
    case False
    then have "\<not> loop_cond (init_sim p)" by (simp add: loop_cond_def init_fields)
    then have "history p (init_sim p) = []" "loop p (init_sim p) = Inr (init_sim p)"
      by (simp_all add: history_stop loop_stop)
    with l s fin show ?thesis by (auto simp: init_fields)
  qed
qed

theorem simulate_queue_terminates_within_budget_witness:
  "loop tie_run (init_sim tie_run) =
     Inr \<lparr>rng = \<lparr>previous = 2726892157, random_count = 0\<rparr>, current_time = 8,
          state = 1, losses = 1, time_in_state = [5, 3],
          event_list = [(11, Departure)]\<rparr>
   \<and> length (history tie_run (init_sim tie_run)) = 4
   \<and> length (history tie_run (init_sim tie_run)) \<le> 2 * nat (num_randoms tie_run)
   \<and> num_randoms tie_run = 4"
proof -
  have c: "0 \<le> capacity tie_run" by (simp add: tie_run_def)
  have n: "length (history tie_run (init_sim tie_run)) = 4"
    using arg_cong[OF tie_history, of length] by simp
  from simulate_queue_terminates_within_budget[OF c] tie_loop n
  show ?thesis by (auto simp: tie_run_def)
qed

section \<open>The aggregation\<close>

text \<open>
  C6, as stated, fails for a negative clock: the source tests \<^verbatim>\<open>simulation_time > 0\<close>, so a
  negative final clock gives probabilities 0, not \<^verbatim>\<open>t / clock * 100\<close>. A first arrival at
  time -5 with a single draw ends with clock -5 and dwell times \<open>[-5, 0]\<close>.
\<close>

theorem aggregator_counterexample_negative_clock:
  "simulate_queue neg_run =
     Inr \<lparr>simulation_time = - 5, res_time_in_state = [- 5, 0],
          probabilities = [0, 0], res_losses = 0, avg_population = 0,
          res_servers = 1, res_capacity = 1, res_min_arrival = 2,
          res_max_arrival = 5, res_min_service = 3, res_max_service = 5\<rparr>
   \<and> probabilities_of [- 5, 0] (- 5) ! 0 = 0
   \<and> ([- 5, 0] ! 0 :: rat) / (- 5) * 100 = 100"
  using neg_result by (simp add: probabilities_of_def)

text \<open>
  C6, amended. The probabilities are \<^verbatim>\<open>time_in_state[i] / clock * 100\<close> for each index when
  the clock is positive and 0 for each index when the clock is zero or negative; the mean
  population is the sum of \<^verbatim>\<open>i * time_in_state[i] / clock\<close> when the clock is positive and 0
  otherwise. Both are functions of the dwell times and the clock alone, and the result of
  a call holds their values at its own dwell times and simulation time.
\<close>

theorem aggregator_formulas:
  "length (probabilities_of tis clock) = length tis \<and>
   (\<forall>i < length tis.
      probabilities_of tis clock ! i = (if clock > 0 then tis ! i / clock * 100 else 0)) \<and>
   avg_population_of tis clock =
     (if clock > 0 then (\<Sum>i < length tis. of_nat i * tis ! i / clock) else 0) \<and>
   (simulate_queue p = Inr r \<longrightarrow>
      probabilities r = probabilities_of (res_time_in_state r) (simulation_time r) \<and>
      avg_population r = avg_population_of (res_time_in_state r) (simulation_time r))"
proof -
  have "(\<Sum>i\<leftarrow>[0..<length tis]. of_nat i * (tis ! i / clock)) =
        (\<Sum>i < length tis. of_nat i * tis ! i / clock)"
    by (simp add: interv_sum_list_conv_sum_set_nat atLeast0LessThan)
  then have avg: "avg_population_of tis clock =
     (if clock > 0 then (\<Sum>i < length tis. of_nat i * tis ! i / clock) else 0)"
    by (simp add: avg_population_of_def)
  have res: "probabilities r = probabilities_of (res_time_in_state r) (simulation_time r) \<and>
      avg_population r = avg_population_of (res_time_in_state r) (simulation_time r)"
    if "simulate_queue p = Inr r"
    using simulate_queue_Inr[OF that] by (auto simp: result_fields)
  show ?thesis using avg res by (simp add: probabilities_of_def)
qed

theorem aggregator_formulas_witness:
  "probabilities_of [5, 3] 8 = [125 / 2, 75 / 2] \<and> avg_population_of [5, 3] 8 = 3 / 8 \<and>
   probabilities_of [5, 3] 8 ! 1 = 3 / 8 * 100 \<and>
   probabilities_of [- 5, 0] (- 5) ! 0 = 0 \<and> avg_population_of [- 5, 0] (- 5) = 0"
proof -
  have a: "probabilities_of [5, 3] 8 ! 1 = 3 / 8 * 100"
    using aggregator_formulas[of "[5, 3]" 8] by simp
  have b: "probabilities_of [- 5, 0] (- 5) ! 0 = 0"
    using aggregator_formulas[of "[- 5, 0]" "- 5"] by simp
  show ?thesis using a b
    by (simp add: probabilities_of_def avg_population_of_def small_lists)
qed

end
